theory Spec2Isabelle
  imports Complex_Main
begin

section \<open>The synchronization actor of sync\_actor.py\<close>

text \<open>
  The actor is a Python object with six fields, mutated by coroutines that run on one
  asyncio event loop. Every coroutine runs without interruption between two suspension
  points, so a call to \<^verbatim>\<open>broadcast_from_rank_zero\<close> is modelled by the uninterrupted
  segments it consists of: the arrival (from taking the condition's lock to either leaving
  or suspending in \<^verbatim>\<open>condition.wait()\<close>), the resumption after \<^verbatim>\<open>notify_all\<close>, and the
  resumption after the outer \<^verbatim>\<open>asyncio.wait_for\<close> has timed out. Clock readings
  (\<^verbatim>\<open>loop.time()\<close>) are inputs of the segments. Python's \<^verbatim>\<open>None\<close> payload is \<open>None\<close>.

  \<^verbatim>\<open>asyncio.wait_for(c, timeout)\<close> with \<open>timeout \<le> 0\<close> wraps the coroutine \<open>c\<close> in a task and
  cancels the task before its first step: no statement of \<open>c\<close> runs, and \<^verbatim>\<open>TimeoutError\<close> is
  raised. The code calls it twice, with \<open>timeout_s\<close> around \<^verbatim>\<open>_wait_with_logging\<close> and with
  \<open>warn_interval_s\<close> around \<^verbatim>\<open>condition.wait()\<close>; both cases are modelled.
\<close>

subsection \<open>State and errors\<close>

record 'a actor =
  counter :: int
  world_size :: int
  reduced_data :: "'a option"
  sync_start_times :: "real option list"
  timeout_s :: real
  warn_interval_s :: real

datatype error =
    ValueError int int
  | IndexError
  | BroadcastCollectiveTimeoutError "(nat \<times> real option) list" real

text \<open>
  \<open>ValueError got expected\<close> is the error of \<^verbatim>\<open>_setup_or_validate_collective_op\<close>, whose
  message is built from the caller's world size and the stored one, in this order.
\<close>

datatype 'a outcome = Returned "'a option" | Raised error | Suspended

definition init :: "real \<Rightarrow> real \<Rightarrow> 'a actor" where
  "init t w = \<lparr>counter = 0, world_size = 0, reduced_data = None,
     sync_start_times = [], timeout_s = t, warn_interval_s = w\<rparr>"

subsection \<open>Accessors\<close>

definition get_counter :: "'a actor \<Rightarrow> int \<times> 'a actor" where
  "get_counter s = (counter s, s)"

definition get_world_size :: "'a actor \<Rightarrow> int \<times> 'a actor" where
  "get_world_size s = (world_size s, s)"

definition get_reduced_data :: "'a actor \<Rightarrow> 'a option \<times> 'a actor" where
  "get_reduced_data s = (reduced_data s, s)"

subsection \<open>Round bookkeeping\<close>

definition clear_states :: "'a actor \<Rightarrow> 'a actor" where
  "clear_states s =
     (let s1 = s\<lparr>counter := counter s - 1\<rparr>
      in if counter s1 = 0 then s1\<lparr>reduced_data := None, world_size := 0\<rparr> else s1)"

text \<open>\<^verbatim>\<open>[None] * world_size\<close> is the empty list for a world size below 1.\<close>

definition setup_or_validate_collective_op :: "'a actor \<Rightarrow> int \<Rightarrow> error + 'a actor" where
  "setup_or_validate_collective_op s ws =
     (if world_size s = 0
      then Inr (s\<lparr>world_size := ws, sync_start_times := replicate (nat ws) None\<rparr>)
      else if ws \<noteq> world_size s then Inl (ValueError ws (world_size s))
      else Inr s)"

text \<open>
  The \<^verbatim>\<open>try\<close> block of \<^verbatim>\<open>_broadcast_collective_context_manager\<close> up to its \<^verbatim>\<open>yield\<close>.
  The only statement that can raise is the first one, and it raises before it has
  written anything, so on \<open>Inl\<close> the actor is still \<open>s\<close>.
\<close>

definition enter :: "'a actor \<Rightarrow> int \<Rightarrow> int \<Rightarrow> 'a option \<Rightarrow> error + 'a actor" where
  "enter s world_rank ws data =
     (case setup_or_validate_collective_op s ws of
        Inl e \<Rightarrow> Inl e
      | Inr s1 \<Rightarrow>
          let s2 = (if world_rank = 0 then s1\<lparr>reduced_data := data\<rparr> else s1);
              s3 = (if counter s2 < world_size s2 then s2\<lparr>counter := counter s2 + 1\<rparr> else s2)
          in Inr s3)"

subsection \<open>Stall reporting\<close>

text \<open>
  \<^verbatim>\<open>current_time - start_time if start_time else None\<close> tests the truth value of the
  entry: both \<^verbatim>\<open>None\<close> and the float \<^verbatim>\<open>0.0\<close> are false.
\<close>

definition elapsed :: "real \<Rightarrow> real option \<Rightarrow> real option" where
  "elapsed current_time start_time =
     (case start_time of
        None \<Rightarrow> None
      | Some t \<Rightarrow> if t \<noteq> 0 then Some (current_time - t) else None)"

definition get_time_elapsed_dict :: "'a actor \<Rightarrow> real \<Rightarrow> (nat \<times> real option) list" where
  "get_time_elapsed_dict s current_time =
     map (\<lambda>(idx, start_time). (idx, elapsed current_time start_time))
       (enumerate 0 (sync_start_times s))"

definition get_broadcast_collective_timeout_error :: "'a actor \<Rightarrow> real \<Rightarrow> error" where
  "get_broadcast_collective_timeout_error s current_time =
     BroadcastCollectiveTimeoutError (get_time_elapsed_dict s current_time) (timeout_s s)"

text \<open>
  Item assignment \<^verbatim>\<open>xs[i] = v\<close> on a Python list: a negative index counts from the end,
  an index outside \<open>-len .. len - 1\<close> raises.
\<close>

definition list_setitem :: "'b list \<Rightarrow> int \<Rightarrow> 'b \<Rightarrow> error + 'b list" where
  "list_setitem xs i v =
     (let n = int (length xs)
      in if - n \<le> i \<and> i < 0 then Inr (xs[nat (n + i) := v])
         else if 0 \<le> i \<and> i < n then Inr (xs[nat i := v])
         else Inl IndexError)"

text \<open>The two statements of \<^verbatim>\<open>_wait_with_logging\<close> before its loop.\<close>

definition record_start :: "'a actor \<Rightarrow> int \<Rightarrow> real \<Rightarrow> error + 'a actor" where
  "record_start s world_rank current_time =
     (case list_setitem (sync_start_times s) world_rank (Some current_time) of
        Inl e \<Rightarrow> Inl e
      | Inr ts \<Rightarrow> Inr (s\<lparr>sync_start_times := ts\<rparr>))"

subsection \<open>The segments of broadcast\_from\_rank\_zero\<close>

text \<open>
  The arrival returns the actor, what the call did, and whether it ran \<^verbatim>\<open>notify_all\<close>.
  The \<^verbatim>\<open>finally\<close> clause of the context manager runs \<^verbatim>\<open>_clear_states\<close> on every exit
  from the \<^verbatim>\<open>try\<close> block: when the set-up raises, when the call returns at once, when the
  outer \<^verbatim>\<open>wait_for\<close> gives up at once, and when recording the start time raises.
  With \<open>timeout_s \<le> 0\<close> the outer \<^verbatim>\<open>wait_for\<close> cancels \<^verbatim>\<open>_wait_with_logging\<close> before its
  first statement, so no start time is recorded and the timeout error is raised in the
  arrival itself.
\<close>

definition broadcast_arrive ::
  "'a actor \<Rightarrow> int \<Rightarrow> int \<Rightarrow> 'a option \<Rightarrow> real \<Rightarrow> 'a actor \<times> 'a outcome \<times> bool" where
  "broadcast_arrive s world_rank ws data current_time =
     (case enter s world_rank ws data of
        Inl e \<Rightarrow> (clear_states s, Raised e, False)
      | Inr s1 \<Rightarrow>
          if counter s1 = world_size s1
          then (clear_states s1, Returned (reduced_data s1), True)
          else if timeout_s s1 \<le> 0
          then (clear_states s1,
                Raised (get_broadcast_collective_timeout_error s1 current_time), False)
          else (case record_start s1 world_rank current_time of
                  Inl e \<Rightarrow> (clear_states s1, Raised e, False)
                | Inr s2 \<Rightarrow> (s2, Suspended, False)))"

text \<open>A waiter that was notified: \<^verbatim>\<open>return self._reduced_data\<close>, then the \<^verbatim>\<open>finally\<close>.\<close>

definition broadcast_wake :: "'a actor \<Rightarrow> 'a actor \<times> 'a outcome" where
  "broadcast_wake s = (clear_states s, Returned (reduced_data s))"

text \<open>A waiter whose outer \<^verbatim>\<open>wait_for\<close> timed out: the error is built, then the \<^verbatim>\<open>finally\<close>.\<close>

definition broadcast_timeout :: "'a actor \<Rightarrow> real \<Rightarrow> 'a actor \<times> 'a outcome" where
  "broadcast_timeout s current_time =
     (clear_states s, Raised (get_broadcast_collective_timeout_error s current_time))"

subsection \<open>Calls in flight\<close>

text \<open>
  The event loop holds the suspended calls. Calls are numbered in the order of their
  arrival; \<open>pending\<close> lists the suspended ones with a flag saying whether \<^verbatim>\<open>notify_all\<close>
  has released them, and \<open>finished\<close> records how each completed call ended.
\<close>

record 'a system =
  actor :: "'a actor"
  pending :: "(nat \<times> bool) list"
  next_id :: nat
  finished :: "(nat \<times> 'a outcome) list"

datatype 'a event =
    Call int int "'a option" real
  | Wake nat
  | Timeout nat real

definition start :: "'a actor \<Rightarrow> 'a system" where
  "start s = \<lparr>actor = s, pending = [], next_id = 0, finished = []\<rparr>"

definition release_all :: "(nat \<times> bool) list \<Rightarrow> (nat \<times> bool) list" where
  "release_all ps = map (\<lambda>(i, _). (i, True)) ps"

definition drop_call :: "nat \<Rightarrow> (nat \<times> bool) list \<Rightarrow> (nat \<times> bool) list" where
  "drop_call i ps = filter (\<lambda>(j, _). j \<noteq> i) ps"

text \<open>
  A suspended call has released the condition's lock inside \<^verbatim>\<open>condition.wait()\<close>, unless
  \<open>warn_interval_s \<le> 0\<close>: then the inner \<^verbatim>\<open>wait_for\<close> cancels \<^verbatim>\<open>condition.wait()\<close> before it
  has released the lock, every round of the loop of \<^verbatim>\<open>_wait_with_logging\<close> ends in the
  caught \<^verbatim>\<open>TimeoutError\<close>, and the call keeps the lock until its outer timeout. While the
  lock is kept no other call can run its arrival, and no waiter can be resumed by a
  notification.
\<close>

definition lock_held :: "'a system \<Rightarrow> bool" where
  "lock_held sys \<longleftrightarrow> pending sys \<noteq> [] \<and> warn_interval_s (actor sys) \<le> 0"

fun step :: "'a system \<Rightarrow> 'a event \<Rightarrow> 'a system option" where
  "step sys (Call world_rank ws data now) =
     (if lock_held sys then None
      else (case broadcast_arrive (actor sys) world_rank ws data now of
        (s', out, notified) \<Rightarrow>
          let ps = (if notified then release_all (pending sys) else pending sys);
              i = next_id sys
          in if out = Suspended
             then Some (sys\<lparr>actor := s', pending := ps @ [(i, False)], next_id := Suc i\<rparr>)
             else Some (sys\<lparr>actor := s', pending := ps, next_id := Suc i,
                          finished := finished sys @ [(i, out)]\<rparr>)))"
| "step sys (Wake i) =
     (if \<not> lock_held sys \<and> (i, True) \<in> set (pending sys)
      then (case broadcast_wake (actor sys) of
              (s', out) \<Rightarrow>
                Some (sys\<lparr>actor := s', pending := drop_call i (pending sys),
                        finished := finished sys @ [(i, out)]\<rparr>))
      else None)"
| "step sys (Timeout i now) =
     (if i \<in> fst ` set (pending sys)
      then (case broadcast_timeout (actor sys) now of
              (s', out) \<Rightarrow>
                Some (sys\<lparr>actor := s', pending := drop_call i (pending sys),
                        finished := finished sys @ [(i, out)]\<rparr>))
      else None)"

fun run :: "'a system \<Rightarrow> 'a event list \<Rightarrow> 'a system option" where
  "run sys [] = Some sys"
| "run sys (e # es) = (case step sys e of None \<Rightarrow> None | Some sys' \<Rightarrow> run sys' es)"

subsection \<open>Rounds\<close>

text \<open>
  The calls of one round, each a rank, a payload and the clock reading at its arrival, all
  declaring the world size \<open>N\<close>.
\<close>

definition arrivals :: "nat \<Rightarrow> (int \<times> 'a option \<times> real) list \<Rightarrow> 'a event list" where
  "arrivals N cs = map (\<lambda>(r, d, t). Call r (int N) d t) cs"

text \<open>
  A round of size \<open>N\<close> in which \<open>k\<close> calls wait, numbered from \<open>b\<close>, none released yet;
  \<open>seen\<close> says whether rank 0 is among them and \<open>P\<close> is its payload. A round of more than
  one call has a call that waits, so its two timeouts are positive.
\<close>

definition round_open :: "nat \<Rightarrow> 'a option \<Rightarrow> bool \<Rightarrow> nat \<Rightarrow> nat \<Rightarrow> 'a system \<Rightarrow> bool" where
  "round_open N P seen b k sys \<longleftrightarrow>
     counter (actor sys) = int k
     \<and> (if k = 0 then world_size (actor sys) = 0
         else world_size (actor sys) = int N \<and> length (sync_start_times (actor sys)) = N)
     \<and> reduced_data (actor sys) = (if seen then P else None)
     \<and> pending sys = map (\<lambda>i. (i, False)) [b..<b + k]
     \<and> next_id sys = b + k
     \<and> (1 < N \<longrightarrow> 0 < timeout_s (actor sys) \<and> 0 < warn_interval_s (actor sys))"

text \<open>The start times are one per rank whenever a round is active.\<close>

definition sst_ok :: "'a actor \<Rightarrow> bool" where
  "sst_ok s \<longleftrightarrow> (world_size s \<noteq> 0 \<longrightarrow> length (sync_start_times s) = nat (world_size s))"

text \<open>
  The bounds on the counter, with the bookkeeping that carries them through a run: the
  counter is the number of suspended calls, which are numbered apart. A call agrees with
  the state when its world size is positive and is that of the active round, if any.
\<close>

definition round_inv :: "'a system \<Rightarrow> bool" where
  "round_inv sys \<longleftrightarrow>
     counter (actor sys) = int (length (pending sys))
     \<and> distinct (map fst (pending sys))
     \<and> (\<forall>i \<in> fst ` set (pending sys). i < next_id sys)
     \<and> (world_size (actor sys) = 0 \<longleftrightarrow> counter (actor sys) = 0)
     \<and> (counter (actor sys) \<noteq> 0 \<longrightarrow> counter (actor sys) < world_size (actor sys))"

fun agreeing :: "'a system \<Rightarrow> 'a event \<Rightarrow> bool" where
  "agreeing sys (Call world_rank ws data now) =
     (0 < ws \<and> (world_size (actor sys) = 0 \<or> ws = world_size (actor sys)))"
| "agreeing sys (Wake i) = True"
| "agreeing sys (Timeout i now) = True"

fun run_agreeing :: "'a system \<Rightarrow> 'a event list \<Rightarrow> bool" where
  "run_agreeing sys [] = True"
| "run_agreeing sys (e # es) =
     (agreeing sys e \<and> (case step sys e of None \<Rightarrow> True | Some sys' \<Rightarrow> run_agreeing sys' es))"

text \<open>Two actors used as concrete inputs: one call waiting, and a counter at its cap.\<close>

abbreviation one_waiting :: "nat actor" where
  "one_waiting \<equiv> \<lparr>counter = 1, world_size = 2, reduced_data = Some 7,
     sync_start_times = [Some 1, None], timeout_s = 5, warn_interval_s = 1\<rparr>"

abbreviation full_round :: "nat actor" where
  "full_round \<equiv> \<lparr>counter = 2, world_size = 2, reduced_data = Some 7,
     sync_start_times = [Some 1, None], timeout_s = 5, warn_interval_s = 1\<rparr>"

section \<open>Properties\<close>

lemmas seg_defs = broadcast_arrive_def enter_def setup_or_validate_collective_op_def
  record_start_def list_setitem_def clear_states_def broadcast_wake_def broadcast_timeout_def
  get_broadcast_collective_timeout_error_def

lemmas run_defs = start_def init_def seg_defs Let_def release_all_def drop_call_def lock_held_def
  get_time_elapsed_dict_def elapsed_def enumerate_eq_zip

subsection \<open>Accessors\<close>

text \<open>
  C8. The accessors \<^verbatim>\<open>get_counter\<close>, \<^verbatim>\<open>get_world_size\<close> and \<^verbatim>\<open>get_reduced_data\<close> return the
  current value of their field and leave the whole actor as it was.
\<close>

theorem accessors_read_only:
  "get_counter s = (counter s, s) \<and> get_world_size s = (world_size s, s)
     \<and> get_reduced_data s = (reduced_data s, s)"
  by (simp add: get_counter_def get_world_size_def get_reduced_data_def)

subsection \<open>Configuration mismatch\<close>

text \<open>
  C4. The arrival raises the mismatch error exactly when a round is active and the caller's
  world size differs from the stored one. The error carries both values, it is the outcome
  of the arrival itself (the call never suspends), and neither resumption raises it.
\<close>

theorem config_mismatch_iff:
  "(world_size s \<noteq> 0 \<and> ws \<noteq> world_size s \<longrightarrow>
      broadcast_arrive s r ws d now = (clear_states s, Raised (ValueError ws (world_size s)), False))
   \<and> (\<not> (world_size s \<noteq> 0 \<and> ws \<noteq> world_size s) \<longrightarrow>
      (\<forall>a b. fst (snd (broadcast_arrive s r ws d now)) \<noteq> Raised (ValueError a b)))
   \<and> snd (broadcast_wake s) \<noteq> Raised (ValueError a b)
   \<and> snd (broadcast_timeout s now) \<noteq> Raised (ValueError a b)"
  by (auto simp: seg_defs Let_def split: sum.splits if_splits)

theorem config_mismatch_iff_witness:
  "world_size one_waiting \<noteq> 0 \<and> 3 \<noteq> world_size one_waiting
   \<and> broadcast_arrive one_waiting 1 3 None 2
        = (clear_states one_waiting, Raised (ValueError 3 2), False)
   \<and> (\<forall>a b. fst (snd (broadcast_arrive one_waiting 1 2 None 2)) \<noteq> Raised (ValueError a b))"
  using config_mismatch_iff [of one_waiting 3 1 None 2]
    config_mismatch_iff [of one_waiting 2 1 None 2]
  by simp

text \<open>
  C2. A call that fails with the mismatch error still runs \<^verbatim>\<open>_clear_states\<close>, although it
  never incremented the counter. With rank 0 waiting in a round of size 2, a call declaring
  size 3 fails and leaves counter 0, world size 0 and no payload, while call 0 is still
  suspended: the round state is not what it was before the failed call.
\<close>

theorem mismatch_resets_round:
  "run (start (init 5 1)) [Call 0 2 (Some (7::nat)) 1]
     = Some \<lparr>actor = one_waiting, pending = [(0, False)], next_id = 1, finished = []\<rparr>
   \<and> run (start (init 5 1)) [Call 0 2 (Some (7::nat)) 1, Call 1 3 None 2]
     = Some \<lparr>actor = \<lparr>counter = 0, world_size = 0, reduced_data = None,
                sync_start_times = [Some 1, None], timeout_s = 5, warn_interval_s = 1\<rparr>,
              pending = [(0, False)], next_id = 2,
              finished = [(1, Raised (ValueError 3 2))]\<rparr>"
  by (simp add: run_defs numeral_2_eq_2)

subsection \<open>Counter bounds\<close>

text \<open>
  Along a run in which every call agrees with the state it meets, the counter stays within
  its bounds; the failing run below contains a call that does not.
\<close>

lemma drop_call_length:
  "distinct (map fst ps) \<Longrightarrow> i \<in> fst ` set ps \<Longrightarrow> Suc (length (drop_call i ps)) = length ps"
proof (induction ps)
  case Nil
  then show ?case by simp
next
  case (Cons p ps)
  show ?case
  proof (cases "fst p = i")
    case True
    with Cons.prems have "i \<notin> fst ` set ps" by auto
    then have "filter (\<lambda>(j, _). j \<noteq> i) ps = ps"
      by (force simp: filter_id_conv)
    with True show ?thesis by (auto simp: drop_call_def split: prod.splits)
  next
    case False
    with Cons show ?thesis by (auto simp: drop_call_def split: prod.splits)
  qed
qed

lemma drop_call_ids: "fst ` set (drop_call i ps) \<subseteq> fst ` set ps"
  by (auto simp: drop_call_def)

lemma drop_call_distinct: "distinct (map fst ps) \<Longrightarrow> distinct (map fst (drop_call i ps))"
  by (simp add: drop_call_def distinct_map_filter)

lemma release_all_ids: "map fst (release_all ps) = map fst ps"
  by (induction ps) (auto simp: release_all_def)

lemma round_inv_leave:
  assumes "round_inv sys" and "i \<in> fst ` set (pending sys)"
  shows "round_inv (sys\<lparr>actor := clear_states (actor sys), pending := drop_call i (pending sys),
                       finished := f\<rparr>)"
proof -
  from assms have l: "Suc (length (drop_call i (pending sys))) = length (pending sys)"
    by (simp add: round_inv_def drop_call_length)
  from assms have d: "distinct (map fst (drop_call i (pending sys)))"
    by (simp add: round_inv_def drop_call_distinct)
  have b: "\<forall>j \<in> fst ` set (drop_call i (pending sys)). j < next_id sys"
  proof
    fix j assume "j \<in> fst ` set (drop_call i (pending sys))"
    with drop_call_ids [of i "pending sys"] have "j \<in> fst ` set (pending sys)" by blast
    with assms(1) show "j < next_id sys" by (auto simp: round_inv_def)
  qed
  from assms(1) l have c: "counter (actor sys) = int (length (drop_call i (pending sys))) + 1"
    "counter (actor sys) < world_size (actor sys)"
    by (auto simp: round_inv_def)
  show ?thesis
    unfolding round_inv_def using d b c by (auto simp: clear_states_def Let_def)
qed

lemma arrive_agreeing:
  assumes "0 < ws"
    and "(world_size s = 0 \<and> counter s = 0)
           \<or> (world_size s = ws \<and> 0 < counter s \<and> counter s < ws)"
    and "broadcast_arrive s r ws d t = (s', out, n)"
  shows "(out = Suspended \<and> counter s' = counter s + 1 \<and> world_size s' = ws
            \<and> counter s' < ws)
         \<or> (out \<noteq> Suspended \<and> counter s' = counter s
            \<and> (world_size s' = 0 \<longleftrightarrow> counter s = 0)
            \<and> (counter s \<noteq> 0 \<longrightarrow> world_size s' = ws))"
proof -
  from assms(1,2) obtain s1 where e: "enter s r ws d = Inr s1"
    "counter s1 = counter s + 1" "world_size s1 = ws"
    by (auto simp: enter_def setup_or_validate_collective_op_def Let_def)
  show ?thesis
  proof (cases "counter s1 = world_size s1")
    case True
    with e assms show ?thesis
      by (auto simp: broadcast_arrive_def clear_states_def Let_def)
  next
    case False
    show ?thesis
    proof (cases "timeout_s s1 \<le> 0")
      case True
      with False e assms show ?thesis
        by (auto simp: broadcast_arrive_def clear_states_def Let_def)
    next
      case positive: False
      show ?thesis
      proof (cases "record_start s1 r t")
        case (Inl err)
        with False positive e assms show ?thesis
          by (auto simp: broadcast_arrive_def clear_states_def Let_def)
      next
        case (Inr s2)
        then have "counter s2 = counter s1" "world_size s2 = world_size s1"
          by (auto simp: record_start_def split: sum.splits)
        with Inr False positive e assms show ?thesis
          by (auto simp: broadcast_arrive_def)
      qed
    qed
  qed
qed

lemma round_inv_call:
  assumes "round_inv sys" and "agreeing sys (Call r ws d t)"
    and "step sys (Call r ws d t) = Some sys'"
  shows "round_inv sys'"
proof -
  let ?ps = "pending sys"
  obtain s' out n where a: "broadcast_arrive (actor sys) r ws d t = (s', out, n)"
    by (cases "broadcast_arrive (actor sys) r ws d t") auto
  let ?qs = "if n then release_all ?ps else ?ps"
  have ids: "map fst ?qs = map fst ?ps" by (simp add: release_all_ids)
  then have len: "length ?qs = length ?ps" by (metis length_map)
  have set_ids: "fst ` set ?qs = fst ` set ?ps"
    using ids by (metis list.set_map)
  from assms(1) have inv: "counter (actor sys) = int (length ?ps)"
    "distinct (map fst ?ps)" "\<forall>i \<in> fst ` set ?ps. i < next_id sys"
    "world_size (actor sys) = 0 \<longleftrightarrow> counter (actor sys) = 0"
    "counter (actor sys) \<noteq> 0 \<longrightarrow> counter (actor sys) < world_size (actor sys)"
    by (auto simp: round_inv_def)
  from assms(2) have ag: "0 < ws" "world_size (actor sys) = 0 \<or> ws = world_size (actor sys)"
    by auto
  have pre: "(world_size (actor sys) = 0 \<and> counter (actor sys) = 0)
           \<or> (world_size (actor sys) = ws \<and> 0 < counter (actor sys) \<and> counter (actor sys) < ws)"
    using inv(1,4,5) ag by auto
  note c = arrive_agreeing [OF ag(1) pre a]
  show ?thesis
  proof (cases "out = Suspended")
    case True
    with assms(3) a have sys': "sys' = sys\<lparr>actor := s', pending := ?qs @ [(next_id sys, False)],
        next_id := Suc (next_id sys)\<rparr>"
      by (simp add: Let_def split: if_splits)
    from True c have cs: "counter s' = counter (actor sys) + 1" "world_size s' = ws"
      "counter s' < ws" by auto
    have d: "distinct (map fst (?qs @ [(next_id sys, False)]))"
      using inv(2,3) ids by (simp only: map_append distinct_append) auto
    have b: "\<forall>i \<in> fst ` set (?qs @ [(next_id sys, False)]). i < Suc (next_id sys)"
      using inv(3) set_ids by (simp only: set_append image_Un) auto
    show ?thesis
      unfolding round_inv_def sys' using d b cs inv(1) len ag(1) by auto
  next
    case False
    with assms(3) a have sys': "sys' = sys\<lparr>actor := s', pending := ?qs,
        next_id := Suc (next_id sys), finished := finished sys @ [(next_id sys, out)]\<rparr>"
      by (simp add: Let_def split: if_splits)
    from False c have cs: "counter s' = counter (actor sys)"
      "world_size s' = 0 \<longleftrightarrow> counter (actor sys) = 0"
      "counter (actor sys) \<noteq> 0 \<longrightarrow> world_size s' = ws" by auto
    have d: "distinct (map fst ?qs)" using inv(2) ids by simp
    have b: "\<forall>i \<in> fst ` set ?qs. i < Suc (next_id sys)"
      using inv(3) set_ids by auto
    have lt: "counter s' \<noteq> 0 \<longrightarrow> counter s' < world_size s'"
      using cs pre by auto
    show ?thesis
      unfolding round_inv_def sys' using d b cs lt inv(1) len by auto
  qed
qed

lemma round_inv_step:
  assumes "round_inv sys" and "agreeing sys e" and "step sys e = Some sys'"
  shows "round_inv sys'"
proof (cases e)
  case (Call r ws d t)
  with assms show ?thesis using round_inv_call by blast
next
  case (Wake i)
  with assms have "i \<in> fst ` set (pending sys)" by (force split: if_splits)
  from round_inv_leave [OF assms(1) this] Wake assms(3) show ?thesis
    by (auto simp: broadcast_wake_def split: if_splits)
next
  case (Timeout i t)
  with assms have "i \<in> fst ` set (pending sys)" by (auto split: if_splits)
  from round_inv_leave [OF assms(1) this] Timeout assms(3) show ?thesis
    by (auto simp: broadcast_timeout_def split: if_splits)
qed

lemma round_inv_run:
  "round_inv sys \<Longrightarrow> run_agreeing sys es \<Longrightarrow> run sys es = Some sys' \<Longrightarrow> round_inv sys'"
  by (induction es arbitrary: sys) (auto split: option.splits dest: round_inv_step)

lemma counter_bounds_without_mismatch:
  assumes "run (start (init T W)) es = Some sys'" and "run_agreeing (start (init T W)) es"
  shows "0 \<le> counter (actor sys') \<and> counter (actor sys') \<le> world_size (actor sys')
           \<and> (world_size (actor sys') = 0 \<longleftrightarrow> counter (actor sys') = 0)"
proof -
  have "round_inv (start (init T W))" by (simp add: round_inv_def start_def init_def)
  from round_inv_run [OF this assms(2,1)] show ?thesis
    by (auto simp: round_inv_def)
qed

text \<open>
  C3. After the failed call of the previous scenario, the waiting call times out and runs
  \<^verbatim>\<open>_clear_states\<close> once more: the counter is \<open>-1\<close> while the world size is 0.
\<close>

theorem mismatch_breaks_counter_bounds:
  "run (start (init 5 1)) [Call 0 2 (Some (7::nat)) 1, Call 1 3 None 2, Timeout 0 6]
     = Some \<lparr>actor = \<lparr>counter = - 1, world_size = 0, reduced_data = None,
                sync_start_times = [Some 1, None], timeout_s = 5, warn_interval_s = 1\<rparr>,
              pending = [], next_id = 2,
              finished = [(1, Raised (ValueError 3 2)),
                (0, Raised (BroadcastCollectiveTimeoutError [(0, Some 5), (1, None)] 5))]\<rparr>"
  by (simp add: run_defs numeral_2_eq_2)

subsection \<open>Leaving and entering\<close>

text \<open>
  C6. \<^verbatim>\<open>_clear_states\<close> decrements the counter by one; exactly when the counter reaches 0 it
  resets the payload and the world size, and it touches nothing else. After the last
  participant has left, an arrival behaves as on a freshly constructed actor.
\<close>

theorem clear_states_spec:
  "counter (clear_states s) = counter s - 1
   \<and> (counter s - 1 = 0 \<longrightarrow> reduced_data (clear_states s) = None \<and> world_size (clear_states s) = 0)
   \<and> (counter s - 1 \<noteq> 0 \<longrightarrow> reduced_data (clear_states s) = reduced_data s
          \<and> world_size (clear_states s) = world_size s)
   \<and> sync_start_times (clear_states s) = sync_start_times s
   \<and> timeout_s (clear_states s) = timeout_s s
   \<and> warn_interval_s (clear_states s) = warn_interval_s s
   \<and> (counter s = 1 \<longrightarrow>
        broadcast_arrive (clear_states s) r ws d now
          = broadcast_arrive (init (timeout_s s) (warn_interval_s s)) r ws d now)"
proof -
  have "broadcast_arrive (clear_states s) r ws d now
          = broadcast_arrive (init (timeout_s s) (warn_interval_s s)) r ws d now"
    if "counter s = 1"
  proof -
    have "\<exists>s1. enter (clear_states s) r ws d = Inr s1
            \<and> enter (init (timeout_s s) (warn_interval_s s)) r ws d = Inr s1"
      using that
      by (simp add: enter_def setup_or_validate_collective_op_def clear_states_def init_def Let_def)
    then show ?thesis
      by (auto simp: broadcast_arrive_def)
  qed
  then show ?thesis
    by (auto simp: clear_states_def Let_def)
qed

theorem clear_states_spec_witness:
  "counter one_waiting = 1 \<and> counter (clear_states one_waiting) = 0
   \<and> reduced_data (clear_states one_waiting) = None
   \<and> world_size (clear_states one_waiting) = 0
   \<and> broadcast_arrive (clear_states one_waiting) 0 2 (Some 9) 3
        = broadcast_arrive (init 5 1) 0 2 (Some 9) 3"
  using clear_states_spec [of one_waiting 0 2 "Some 9" 3]
  by simp

text \<open>
  C7. Entering never moves the counter past the world size of the round (the stored one
  after set-up or validation). When the counter already equals it, a caller declaring the
  same world size enters without an error and the counter is unchanged.
\<close>

theorem enter_capped:
  "(\<forall>s'. enter s r ws d = Inr s' \<longrightarrow>
       (counter s \<le> world_size s' \<longrightarrow> counter s' \<le> world_size s')
     \<and> (counter s = world_size s' \<longrightarrow> counter s' = counter s))
   \<and> (world_size s \<noteq> 0 \<and> ws = world_size s \<and> counter s = world_size s \<longrightarrow>
        (\<exists>s'. enter s r ws d = Inr s' \<and> counter s' = counter s \<and> world_size s' = world_size s))"
  by (auto simp: seg_defs Let_def split: sum.splits if_splits)

theorem enter_capped_witness:
  "world_size full_round \<noteq> 0 \<and> counter full_round = world_size full_round
   \<and> (\<exists>s'. enter full_round 1 2 None = Inr s' \<and> counter s' = 2 \<and> world_size s' = 2)"
  using enter_capped [of full_round 1 2 None]
  by simp

subsection \<open>Start times\<close>

lemma list_setitem_length: "list_setitem xs i v = Inr ys \<Longrightarrow> length ys = length xs"
  by (auto simp: list_setitem_def Let_def split: if_splits)

lemma sst_ok_clear: "sst_ok s \<Longrightarrow> sst_ok (clear_states s)"
  by (simp add: sst_ok_def clear_states_def Let_def)

lemma sst_ok_enter: "sst_ok s \<Longrightarrow> enter s r ws d = Inr s1 \<Longrightarrow> sst_ok s1"
  by (auto simp: sst_ok_def enter_def setup_or_validate_collective_op_def Let_def
      split: if_splits)

lemma sst_ok_record: "sst_ok s \<Longrightarrow> record_start s r t = Inr s1 \<Longrightarrow> sst_ok s1"
  by (auto simp: sst_ok_def record_start_def split: sum.splits dest: list_setitem_length)

lemma sst_ok_arrive: "sst_ok s \<Longrightarrow> sst_ok (fst (broadcast_arrive s r ws d t))"
  by (auto simp: broadcast_arrive_def split: sum.splits
      intro: sst_ok_clear sst_ok_enter sst_ok_record)

lemma sst_ok_step: "sst_ok (actor sys) \<Longrightarrow> step sys e = Some sys' \<Longrightarrow> sst_ok (actor sys')"
proof (cases e)
  case (Call r ws d t)
  assume "sst_ok (actor sys)" "step sys e = Some sys'"
  with Call sst_ok_arrive [of "actor sys" r ws d t] show ?thesis
    by (auto simp: Let_def split: prod.splits if_splits)
next
  case (Wake i)
  assume "sst_ok (actor sys)" "step sys e = Some sys'"
  with Wake show ?thesis
    by (auto simp: broadcast_wake_def split: if_splits intro: sst_ok_clear)
next
  case (Timeout i t)
  assume "sst_ok (actor sys)" "step sys e = Some sys'"
  with Timeout show ?thesis
    by (auto simp: broadcast_timeout_def split: if_splits intro: sst_ok_clear)
qed

lemma sst_ok_run: "sst_ok (actor sys) \<Longrightarrow> run sys es = Some sys' \<Longrightarrow> sst_ok (actor sys')"
  by (induction es arbitrary: sys) (auto split: option.splits dest: sst_ok_step)

lemma sst_ok_reachable: "run (start (init T W)) es = Some sys' \<Longrightarrow> sst_ok (actor sys')"
  using sst_ok_run [of "start (init T W)" es sys'] by (simp add: sst_ok_def start_def init_def)

text \<open>
  On an actor built with \<open>timeout_s = 0\<close>, a caller with rank 2 in a round of size 2 does not
  reach the list assignment: the outer \<^verbatim>\<open>wait_for\<close> gives up first, and the call fails with
  the timeout error, not with the indexing error.
\<close>

theorem rank_out_of_range_zero_timeout:
  "enter (init 0 1 :: nat actor) 2 2 None
     = Inr \<lparr>counter = 1, world_size = 2, reduced_data = None,
          sync_start_times = [None, None], timeout_s = 0, warn_interval_s = 1\<rparr>
   \<and> broadcast_arrive (init 0 1 :: nat actor) 2 2 None 1
     = (\<lparr>counter = 0, world_size = 0, reduced_data = None,
          sync_start_times = [None, None], timeout_s = 0, warn_interval_s = 1\<rparr>,
        Raised (BroadcastCollectiveTimeoutError [(0, None), (1, None)] 0), False)
   \<and> fst (snd (broadcast_arrive (init 0 1 :: nat actor) 2 2 None 1)) \<noteq> Raised IndexError"
  by (simp add: run_defs numeral_2_eq_2)

text \<open>
  C9. On an actor with a positive \<open>timeout_s\<close>, a caller whose world size is that of the
  round (or who opens the round), whose rank is not below it, and who does not complete the
  round, fails with the indexing error of the list assignment; \<^verbatim>\<open>_clear_states\<close> then undoes
  its entry.
\<close>

theorem rank_out_of_range:
  assumes "sst_ok s"
    and "world_size s = 0 \<or> ws = world_size s"
    and "ws \<le> r"
    and "enter s r ws d = Inr s1"
    and "counter s1 \<noteq> world_size s1"
    and "0 < timeout_s s"
  shows "broadcast_arrive s r ws d now = (clear_states s1, Raised IndexError, False)"
  using assms
  by (auto simp: sst_ok_def seg_defs Let_def split: sum.splits if_splits)

theorem rank_out_of_range_witness:
  "broadcast_arrive (init 5 1 :: nat actor) 2 2 None 1
     = (clear_states \<lparr>counter = 1, world_size = 2, reduced_data = None,
          sync_start_times = [None, None], timeout_s = 5, warn_interval_s = 1\<rparr>,
        Raised IndexError, False)"
  using rank_out_of_range [of "init 5 1 :: nat actor" 2 2 None
      "\<lparr>counter = 1, world_size = 2, reduced_data = None,
          sync_start_times = [None, None], timeout_s = 5, warn_interval_s = 1\<rparr>" 1]
  by (simp add: sst_ok_def init_def enter_def setup_or_validate_collective_op_def numeral_2_eq_2)

subsection \<open>Timeout\<close>

lemma timeout_snapshot:
  "\<exists>snap. snd (broadcast_timeout s now) = Raised (BroadcastCollectiveTimeoutError snap (timeout_s s))
     \<and> map fst snap = [0..<length (sync_start_times s)]
     \<and> (\<forall>i < length (sync_start_times s).
           (sync_start_times s ! i = None \<longrightarrow> snd (snap ! i) = None)
         \<and> (\<forall>t. sync_start_times s ! i = Some t \<and> t \<noteq> 0 \<longrightarrow> snd (snap ! i) = Some (now - t)))"
  by (auto simp: broadcast_timeout_def get_broadcast_collective_timeout_error_def
      get_time_elapsed_dict_def elapsed_def enumerate_eq_zip map_fst_zip
      intro!: nth_equalityI)

text \<open>
  C5. Rank 0 enters a round of size 2 when the clock reads 1 and waits. A call declaring
  size 3 fails and, by running \<^verbatim>\<open>_clear_states\<close>, ends the round under the waiting call;
  the next call with size 3 opens a round and allocates new start times. When call 0 times
  out at 6, after waiting for its 5 seconds, its error carries \<open>timeout_s\<close> but a snapshot of
  three ranks in which rank 0 is \<^verbatim>\<open>None\<close>, although rank 0 recorded its arrival.
\<close>

theorem timeout_snapshot_after_mismatch:
  "run (start (init 5 1))
     [Call 0 2 (Some (7::nat)) 1, Call 1 3 None 2, Call 1 3 None 3, Timeout 0 6]
     = Some \<lparr>actor = \<lparr>counter = 0, world_size = 0, reduced_data = None,
                sync_start_times = [None, Some 3, None], timeout_s = 5, warn_interval_s = 1\<rparr>,
              pending = [(2, False)], next_id = 3,
              finished = [(1, Raised (ValueError 3 2)),
                (0, Raised (BroadcastCollectiveTimeoutError
                      [(0, None), (1, Some 3), (2, None)] 5))]\<rparr>"
  by (simp add: run_defs numeral_2_eq_2 numeral_3_eq_3)

subsection \<open>Complete rounds\<close>

lemma run_append:
  "run sys (es @ fs) = (case run sys es of None \<Rightarrow> None | Some sys' \<Rightarrow> run sys' fs)"
  by (induction es arbitrary: sys) (auto split: option.splits)

lemma list_setitem_ok:
  assumes "length xs = N" and "- int N \<le> r" and "r < int N"
  shows "\<exists>ts. list_setitem xs r v = Inr ts \<and> length ts = N"
  using assms by (auto simp: list_setitem_def Let_def)

lemma arrive_open:
  assumes "round_open N P seen b k sys" and "Suc k < N"
    and "- int N \<le> r" and "r < int N" and "r = 0 \<longrightarrow> d = P"
  shows "\<exists>sys'. step sys (Call r (int N) d t) = Some sys'
           \<and> round_open N P (seen \<or> r = 0) b (Suc k) sys'
           \<and> finished sys' = finished sys"
proof (cases "k = 0")
  case True
  from assms obtain ts where "list_setitem (replicate N None) r (Some t) = Inr ts" "length ts = N"
    using list_setitem_ok [of "replicate N None" N r "Some t"] by auto
  with True assms show ?thesis
    by (auto simp: round_open_def broadcast_arrive_def enter_def lock_held_def
        setup_or_validate_collective_op_def record_start_def Let_def)
next
  case False
  from False assms obtain ts where
    "list_setitem (sync_start_times (actor sys)) r (Some t) = Inr ts" "length ts = N"
    using list_setitem_ok [of "sync_start_times (actor sys)" N r "Some t"]
    by (auto simp: round_open_def)
  with False assms show ?thesis
    by (auto simp: round_open_def broadcast_arrive_def enter_def lock_held_def
        setup_or_validate_collective_op_def record_start_def Let_def)
qed

lemma arrivals_open:
  assumes "round_open N P seen b k sys" and "k + length cs < N"
    and "\<forall>(r, d, t) \<in> set cs. - int N \<le> r \<and> r < int N \<and> (r = 0 \<longrightarrow> d = P)"
  shows "\<exists>sys'. run sys (arrivals N cs) = Some sys'
           \<and> round_open N P (seen \<or> 0 \<in> fst ` set cs) b (k + length cs) sys'
           \<and> finished sys' = finished sys"
  using assms
proof (induction cs arbitrary: sys seen k)
  case Nil
  then show ?case by (simp add: arrivals_def)
next
  case (Cons c cs)
  obtain r d t where c: "c = (r, d, t)" by (cases c) auto
  from Cons.prems c obtain sys1 where s1: "step sys (Call r (int N) d t) = Some sys1"
    "round_open N P (seen \<or> r = 0) b (Suc k) sys1" "finished sys1 = finished sys"
    using arrive_open [of N P seen b k sys r d t] by auto
  from Cons.prems have "Suc k + length cs < N"
    and "\<forall>(r, d, t) \<in> set cs. - int N \<le> r \<and> r < int N \<and> (r = 0 \<longrightarrow> d = P)" by auto
  from Cons.IH [OF s1(2) this] obtain sys' where s': "run sys1 (arrivals N cs) = Some sys'"
    "round_open N P ((seen \<or> r = 0) \<or> 0 \<in> fst ` set cs) b (Suc k + length cs) sys'"
    "finished sys' = finished sys1" by blast
  have "((seen \<or> r = 0) \<or> 0 \<in> fst ` set cs) = (seen \<or> 0 \<in> fst ` set (c # cs))"
    using c by force
  with s1 s' c show ?case by (auto simp: arrivals_def)
qed

lemma last_arrival:
  assumes "round_open N P seen b k sys" and "Suc k = N"
    and "r = 0 \<longrightarrow> d = P" and "seen \<or> r = 0 \<or> P = None"
  shows "\<exists>sys'. step sys (Call r (int N) d t) = Some sys'
           \<and> counter (actor sys') = int k
           \<and> (k = 0 \<longrightarrow> world_size (actor sys') = 0)
           \<and> (k \<noteq> 0 \<longrightarrow> reduced_data (actor sys') = P)
           \<and> (k \<noteq> 0 \<longrightarrow> 0 < warn_interval_s (actor sys'))
           \<and> pending sys' = map (\<lambda>i. (i, True)) [b..<b + k]
           \<and> finished sys' = finished sys @ [(b + k, Returned P)]"
proof (cases "k = 0")
  case True
  with assms show ?thesis
    by (auto simp: round_open_def broadcast_arrive_def enter_def clear_states_def
        lock_held_def setup_or_validate_collective_op_def Let_def release_all_def)
next
  case False
  with assms show ?thesis
    by (auto simp: round_open_def broadcast_arrive_def enter_def clear_states_def
        lock_held_def setup_or_validate_collective_op_def Let_def release_all_def)
qed

lemma wakes_drain:
  assumes "set (pending sys) = (\<lambda>i. (i, True)) ` set ord" and "distinct ord"
    and "counter (actor sys) = int (length ord)"
    and "ord \<noteq> [] \<longrightarrow> reduced_data (actor sys) = P"
    and "ord = [] \<longrightarrow> world_size (actor sys) = 0"
    and "ord \<noteq> [] \<longrightarrow> 0 < warn_interval_s (actor sys)"
  shows "\<exists>sys'. run sys (map Wake ord) = Some sys'
           \<and> counter (actor sys') = 0 \<and> world_size (actor sys') = 0
           \<and> pending sys' = []
           \<and> finished sys' = finished sys @ map (\<lambda>i. (i, Returned P)) ord"
  using assms
proof (induction ord arbitrary: sys)
  case Nil
  then show ?case by simp
next
  case (Cons i ord)
  let ?sys1 = "sys\<lparr>actor := clear_states (actor sys), pending := drop_call i (pending sys),
                   finished := finished sys @ [(i, Returned P)]\<rparr>"
  have st: "step sys (Wake i) = Some ?sys1"
    using Cons.prems by (simp add: broadcast_wake_def lock_held_def)
  have p: "set (pending ?sys1) = (\<lambda>i. (i, True)) ` set ord"
    using Cons.prems(1,2) by (auto simp: drop_call_def)
  have c: "counter (actor ?sys1) = int (length ord)"
    using Cons.prems(3) by (simp add: clear_states_def Let_def)
  have r: "ord \<noteq> [] \<longrightarrow> reduced_data (actor ?sys1) = P"
    using Cons.prems(3,4) by (auto simp: clear_states_def Let_def)
  have w: "ord = [] \<longrightarrow> world_size (actor ?sys1) = 0"
    using Cons.prems(3) by (auto simp: clear_states_def Let_def)
  have wi: "ord \<noteq> [] \<longrightarrow> 0 < warn_interval_s (actor ?sys1)"
    using Cons.prems(6) by (simp add: clear_states_def Let_def)
  from Cons.prems(2) have d: "distinct ord" by simp
  from Cons.IH [OF p d c r w wi] obtain sys' where "run ?sys1 (map Wake ord) = Some sys'"
    "counter (actor sys') = 0" "world_size (actor sys') = 0" "pending sys' = []"
    "finished sys' = finished ?sys1 @ map (\<lambda>i. (i, Returned P)) ord" by blast
  with st show ?case by simp
qed

lemma round_completes:
  assumes N: "1 \<le> N" and len: "length cs = N"
    and valid: "\<forall>(r, d, t) \<in> set (butlast cs). - int N \<le> r \<and> r < int N"
    and zero: "\<forall>(r, d, t) \<in> set cs. r = 0 \<longrightarrow> d = P"
    and some: "0 \<in> fst ` set cs \<or> P = None"
    and ord: "set ord = {0..<N - 1}" "distinct ord"
    and idle: "counter s = 0" "world_size s = 0" "reduced_data s = None"
    and pos: "1 < N \<longrightarrow> 0 < timeout_s s \<and> 0 < warn_interval_s s"
  shows "\<exists>sys'. run (start s) (arrivals N cs @ map Wake ord) = Some sys'
           \<and> counter (actor sys') = 0 \<and> world_size (actor sys') = 0
           \<and> pending sys' = []
           \<and> finished sys' = (N - 1, Returned P) # map (\<lambda>i. (i, Returned P)) ord"
proof -
  from N len have ne: "cs \<noteq> []" by auto
  have split: "butlast cs @ [last cs] = cs" using ne by simp
  obtain r d t where l: "last cs = (r, d, t)" by (cases "last cs") auto
  have eq: "butlast cs @ [(r, d, t)] = cs" using split l by simp
  have lb: "length (butlast cs) = N - 1" using len by simp
  have o: "round_open N P False 0 0 (start s)"
    using idle pos by (simp add: round_open_def start_def)
  have v: "\<forall>(r, d, t) \<in> set (butlast cs). - int N \<le> r \<and> r < int N \<and> (r = 0 \<longrightarrow> d = P)"
    using valid zero by (auto dest: in_set_butlastD)
  from arrivals_open [OF o _ v] N lb obtain sys1 where
    s1: "run (start s) (arrivals N (butlast cs)) = Some sys1"
      "round_open N P (0 \<in> fst ` set (butlast cs)) 0 (N - 1) sys1"
      "finished sys1 = []"
    by (auto simp: start_def)
  have lz: "r = 0 \<longrightarrow> d = P"
    using zero l ne last_in_set [OF ne] by auto
  have "0 \<in> fst ` set (butlast cs) \<or> r = 0 \<or> P = None"
  proof -
    have "set cs = set (butlast cs @ [(r, d, t)])" by (simp only: eq)
    also have "\<dots> = set (butlast cs) \<union> {(r, d, t)}" by simp
    finally show ?thesis using some by auto
  qed
  from last_arrival [OF s1(2) _ lz this, of t] N obtain sys2 where
    s2: "step sys1 (Call r (int N) d t) = Some sys2"
      "counter (actor sys2) = int (N - 1)"
      "N - 1 = 0 \<longrightarrow> world_size (actor sys2) = 0"
      "N - 1 \<noteq> 0 \<longrightarrow> reduced_data (actor sys2) = P"
      "N - 1 \<noteq> 0 \<longrightarrow> 0 < warn_interval_s (actor sys2)"
      "pending sys2 = map (\<lambda>i. (i, True)) [0..<N - 1]"
      "finished sys2 = [(N - 1, Returned P)]"
    using s1(3) by auto
  have p: "set (pending sys2) = (\<lambda>i. (i, True)) ` set ord"
    using s2(6) ord by simp
  have c: "counter (actor sys2) = int (length ord)"
    using s2(2) ord distinct_card [of ord] by simp
  have e: "ord = [] \<longleftrightarrow> N - 1 = 0"
  proof
    assume "ord = []"
    with ord(1) have "{0..<N - 1} = {}" by simp
    then show "N - 1 = 0" by simp
  next
    assume "N - 1 = 0"
    with ord(1) show "ord = []" by simp
  qed
  from wakes_drain [OF p ord(2) c, of P] s2(3,4,5) e obtain sys' where
    s': "run sys2 (map Wake ord) = Some sys'" "counter (actor sys') = 0"
      "world_size (actor sys') = 0" "pending sys' = []"
      "finished sys' = finished sys2 @ map (\<lambda>i. (i, Returned P)) ord"
    by auto
  have "arrivals N (butlast cs @ [(r, d, t)]) = arrivals N (butlast cs) @ [Call r (int N) d t]"
    unfolding arrivals_def by (simp only: map_append list.map prod.case)
  then have "arrivals N cs = arrivals N (butlast cs) @ [Call r (int N) d t]"
    by (simp only: eq)
  with s1 s2 s' show ?thesis
    by (simp add: run_append)
qed

text \<open>
  C1. For \<open>N \<ge> 1\<close> calls with the ranks \<open>0 .. N - 1\<close>, all declaring world size \<open>N\<close>, arriving
  in any order and resumed in any order, rank 0 supplying \<open>P\<close>: every call returns \<open>P\<close>,
  and afterwards \<^verbatim>\<open>get_counter\<close> and \<^verbatim>\<open>get_world_size\<close> return 0. That none of the calls
  times out means that the schedule has no timeout and, when a call has to wait (\<open>N > 1\<close>),
  that \<open>timeout_s\<close> and \<open>warn_interval_s\<close> are positive: with either at most 0 every waiting
  call times out.
\<close>

theorem broadcast_round:
  assumes "1 \<le> N" and "length cs = N" and "fst ` set cs = {0..<int N}"
    and "\<forall>(r, d, t) \<in> set cs. r = 0 \<longrightarrow> d = P"
    and "set ord = {0..<N - 1}" and "distinct ord"
    and "N = 1 \<or> (0 < T \<and> 0 < W)"
  shows "\<exists>sys'. run (start (init T W)) (arrivals N cs @ map Wake ord) = Some sys'
           \<and> pending sys' = []
           \<and> set (finished sys') = (\<lambda>i. (i, Returned P)) ` {0..<N}
           \<and> fst (get_counter (actor sys')) = 0
           \<and> fst (get_world_size (actor sys')) = 0"
proof -
  have v: "\<forall>(r, d, t) \<in> set (butlast cs). - int N \<le> r \<and> r < int N"
  proof -
    have "\<And>x. x \<in> set cs \<Longrightarrow> fst x \<in> {0..<int N}" using assms(3) by blast
    then show ?thesis by (fastforce dest: in_set_butlastD)
  qed
  have z: "0 \<in> fst ` set cs \<or> P = None" using assms(1,3) by auto
  from round_completes [OF assms(1,2) v assms(4) z assms(5,6), of "init T W"] assms(7)
  obtain sys' where s': "run (start (init T W)) (arrivals N cs @ map Wake ord) = Some sys'"
    "counter (actor sys') = 0" "world_size (actor sys') = 0" "pending sys' = []"
    "finished sys' = (N - 1, Returned P) # map (\<lambda>i. (i, Returned P)) ord"
    by (auto simp: init_def)
  have "{0..<N} = insert (N - 1) (set ord)" using assms(1,5) by auto
  then have "set (finished sys') = (\<lambda>i. (i, Returned P)) ` {0..<N}"
    using s'(5) by (simp add: image_image)
  with s' show ?thesis by (simp add: get_counter_def get_world_size_def)
qed

theorem broadcast_round_witness:
  "\<exists>sys'. run (start (init 5 1))
             (arrivals 3 [(1, Some (11::nat), 1), (2, None, 2), (0, Some 42, 3)] @ map Wake [1, 0])
           = Some sys'
         \<and> pending sys' = []
         \<and> set (finished sys') = (\<lambda>i. (i, Returned (Some 42))) ` {0..<3}
         \<and> fst (get_counter (actor sys')) = 0
         \<and> fst (get_world_size (actor sys')) = 0"
proof -
  have r: "fst ` set [(1, Some (11::nat), 1::real), (2, None, 2), (0::int, Some 42, 3)] = {0..<int 3}"
    by auto
  have o: "set [1, 0] = {0..<(3::nat) - 1}" by auto
  show ?thesis
    using broadcast_round [of 3 "[(1, Some (11::nat), 1), (2, None, 2), (0, Some 42, 3)]"
        "Some 42" "[1, 0]" 5 1, OF _ _ r _ o]
    by simp
qed

text \<open>
  C10. A round of \<open>N\<close> calls none of which declares rank 0 (the waiting ones with a rank
  that indexes the start times) completes, and every call returns \<^verbatim>\<open>None\<close>. For the waiting
  calls to be released, \<open>timeout_s\<close> and \<open>warn_interval_s\<close> are positive when \<open>N > 1\<close>.
\<close>

theorem no_rank_zero_returns_None:
  assumes "1 \<le> N" and "length cs = N"
    and "\<forall>(r, d, t) \<in> set cs. r \<noteq> 0"
    and "\<forall>(r, d, t) \<in> set (butlast cs). - int N \<le> r \<and> r < int N"
    and "set ord = {0..<N - 1}" and "distinct ord"
    and "N = 1 \<or> (0 < T \<and> 0 < W)"
  shows "\<exists>sys'. run (start (init T W)) (arrivals N cs @ map Wake ord) = Some sys'
           \<and> pending sys' = []
           \<and> set (finished sys') = (\<lambda>i. (i, Returned None)) ` {0..<N}"
proof -
  have z: "\<forall>(r, d, t) \<in> set cs. r = 0 \<longrightarrow> d = None" using assms(3) by auto
  from round_completes [OF assms(1,2,4) z _ assms(5,6), of "init T W"] assms(7)
  obtain sys' where s': "run (start (init T W)) (arrivals N cs @ map Wake ord) = Some sys'"
    "pending sys' = []"
    "finished sys' = (N - 1, Returned None) # map (\<lambda>i. (i, Returned None)) ord"
    by (auto simp: init_def)
  have "{0..<N} = insert (N - 1) (set ord)" using assms(1,5) by auto
  then have "set (finished sys') = (\<lambda>i. (i, Returned None)) ` {0..<N}"
    using s'(3) by (simp add: image_image)
  with s' show ?thesis by simp
qed

theorem no_rank_zero_returns_None_witness:
  "\<exists>sys'. run (start (init 5 1))
             (arrivals 2 [(1, Some (11::nat), 1), (1, Some 12, 2)] @ map Wake [0])
           = Some sys'
         \<and> pending sys' = []
         \<and> set (finished sys') = (\<lambda>i. (i, Returned None)) ` {0..<2}"
proof -
  have o: "set [0] = {0..<(2::nat) - 1}" by auto
  show ?thesis
    using no_rank_zero_returns_None [of 2 "[(1, Some (11::nat), 1), (1, Some 12, 2)]" "[0]" 5 1,
        OF _ _ _ _ o]
    by simp
qed

end
